theory Spec2Isabelle
  imports Main
begin

section \<open>Django health watcher: the program\<close>

text \<open>
  A shallow embedding of \<^verbatim>\<open>stacks/django/health-scripts/health_watcher.py\<close>.
  The script has two functions, \<^verbatim>\<open>check_health\<close> and \<^verbatim>\<open>main\<close>. Everything they do
  beyond computing a value (an HTTP request, a log record, a read of the environment,
  a sleep) is recorded, in order, in a trace carried by the program state, and an
  exception is a value: every operation returns \<open>Inl e\<close> where the Python raises \<open>e\<close>.
\<close>

subsection \<open>Exceptions\<close>

text \<open>
  The classes that matter are told apart by one question, the one \<^verbatim>\<open>except Exception\<close>
  asks: is the class derived from \<^verbatim>\<open>Exception\<close>? \<^verbatim>\<open>KeyboardInterrupt\<close> and
  \<^verbatim>\<open>SystemExit\<close> derive from \<^verbatim>\<open>BaseException\<close> only; they are how a signal
  that arrives during a blocking request surfaces in the program. A signal that
  arrives at any other point of the run is not modelled.
\<close>

datatype exn_class =
    Timeout | ConnectionError | InvalidURL | ValueError | OverflowError | OSError
  | OtherException | KeyboardInterrupt | SystemExit

fun is_Exception :: "exn_class \<Rightarrow> bool" where
  "is_Exception KeyboardInterrupt = False"
| "is_Exception SystemExit = False"
| "is_Exception _ = True"

datatype exn = Exn (exn_class: exn_class) (exn_str: string)

subsection \<open>Observable events, state and the outside world\<close>

datatype level = INFO | WARNING | ERROR

fun levelno :: "level \<Rightarrow> nat" where
  "levelno INFO = 20"
| "levelno WARNING = 30"
| "levelno ERROR = 40"

datatype event =
    Log level string
  | Getenv string
  | Get string int
  | Sleep int

fun is_Log :: "event \<Rightarrow> bool" where
  "is_Log (Log l m) = True"
| "is_Log _ = False"

fun is_Get :: "event \<Rightarrow> bool" where
  "is_Get (Get u t) = True"
| "is_Get _ = False"


fun is_Sleep :: "event \<Rightarrow> bool" where
  "is_Sleep (Sleep n) = True"
| "is_Sleep _ = False"

datatype response = Response (status_code: int)

text \<open>
  The world is what the program cannot control: the process environment, what each
  HTTP request comes back with, and the clock. \<open>http w k url\<close> is the outcome of the
  request issued to \<open>url\<close> when \<open>k\<close> requests have been issued before it: a response,
  or the exception \<^verbatim>\<open>requests.get\<close> raises. \<open>monotonic w k\<close> is the reading of the
  monotonic clock, in nanoseconds, at the call of \<^verbatim>\<open>time.sleep\<close> that \<open>k\<close> completed
  sleeps precede.
\<close>

record world =
  environ :: "string \<Rightarrow> string option"
  http :: "nat \<Rightarrow> string \<Rightarrow> exn + response"
  monotonic :: "nat \<Rightarrow> int"

record state =
  requests_made :: nat
  trace :: "event list"

definition init_state :: state where
  "init_state = \<lparr>requests_made = 0, trace = []\<rparr>"

definition events_since :: "state \<Rightarrow> state \<Rightarrow> event list" where
  "events_since s s' = drop (length (trace s)) (trace s')"

text \<open>The number of sleeps completed so far, as the trace records them.\<close>

definition sleeps_made :: "state \<Rightarrow> nat" where
  "sleeps_made s = length (filter is_Sleep (trace s))"

subsection \<open>Library operations the script calls\<close>

text \<open>
  \<^verbatim>\<open>logging.basicConfig(level=logging.INFO)\<close>: a record is emitted when its level is
  at least \<^verbatim>\<open>INFO\<close>. The timestamp of the format string is not modelled; a log
  event is the level and the message.
\<close>

definition logger_log :: "level \<Rightarrow> string \<Rightarrow> state \<Rightarrow> state" where
  "logger_log lvl msg s =
     (if levelno INFO \<le> levelno lvl then s\<lparr>trace := trace s @ [Log lvl msg]\<rparr> else s)"

definition logger_info :: "string \<Rightarrow> state \<Rightarrow> state" where
  "logger_info = logger_log INFO"

definition logger_warning :: "string \<Rightarrow> state \<Rightarrow> state" where
  "logger_warning = logger_log WARNING"

definition logger_error :: "string \<Rightarrow> state \<Rightarrow> state" where
  "logger_error = logger_log ERROR"

text \<open>\<^verbatim>\<open>requests.get(url, timeout=t)\<close>: one request, answered by the world.\<close>

definition requests_get :: "world \<Rightarrow> string \<Rightarrow> int \<Rightarrow> state \<Rightarrow> (exn + response) \<times> state" where
  "requests_get w url timeout s =
     (http w (requests_made s) url,
      s\<lparr>requests_made := Suc (requests_made s), trace := trace s @ [Get url timeout]\<rparr>)"

text \<open>\<^verbatim>\<open>os.getenv(key, default)\<close>.\<close>

definition os_getenv :: "world \<Rightarrow> string \<Rightarrow> string \<Rightarrow> state \<Rightarrow> string \<times> state" where
  "os_getenv w key dflt s =
     ((case environ w key of None \<Rightarrow> dflt | Some v \<Rightarrow> v),
      s\<lparr>trace := trace s @ [Getenv key]\<rparr>)"

text \<open>
  \<^verbatim>\<open>time.sleep(secs)\<close> with an integer argument, as CPython implements it on a
  system with \<^verbatim>\<open>clock_nanosleep\<close>. The seconds are converted to a signed 64-bit
  count of nanoseconds (\<^verbatim>\<open>OverflowError\<close> when that does not fit), a negative
  duration is refused with \<^verbatim>\<open>ValueError\<close>, and the sleep lasts until the deadline
  that is the reading of the monotonic clock plus the duration. That sum is a signed
  64-bit count of nanoseconds too: when it does not fit it wraps to a negative
  deadline. A negative deadline is refused by the system call, and the call raises
  \<^verbatim>\<open>OSError\<close>.
\<close>

definition PyTime_MAX :: int where
  "PyTime_MAX = 2 ^ 63 - 1"

definition PyTime_MAX_seconds :: int where
  "PyTime_MAX_seconds = PyTime_MAX div 10 ^ 9"

definition sleep_error :: "int \<Rightarrow> int \<Rightarrow> exn option" where
  "sleep_error now secs =
     (if secs < - PyTime_MAX_seconds \<or> PyTime_MAX_seconds < secs
      then Some (Exn OverflowError ''timestamp too large to convert to C PyTime_t'')
      else if secs < 0
      then Some (Exn ValueError ''sleep length must be non-negative'')
      else if now + secs * 10 ^ 9 < 0 \<or> PyTime_MAX < now + secs * 10 ^ 9
      then Some (Exn OSError ''[Errno 22] Invalid argument'')
      else None)"

definition time_sleep :: "world \<Rightarrow> int \<Rightarrow> state \<Rightarrow> (exn + unit) \<times> state" where
  "time_sleep w secs s =
     (case sleep_error (monotonic w (sleeps_made s)) secs of
        Some e \<Rightarrow> (Inl e, s)
      | None \<Rightarrow> (Inr (), s\<lparr>trace := trace s @ [Sleep secs]\<rparr>))"

text \<open>\<^verbatim>\<open>str(n)\<close> for an integer, as an f-string formats it.\<close>

definition digit_char :: "nat \<Rightarrow> char" where
  "digit_char d = ''0123456789'' ! d"

fun str_nat :: "nat \<Rightarrow> string" where
  "str_nat n = (if n < 10 then [digit_char n] else str_nat (n div 10) @ [digit_char (n mod 10)])"

declare str_nat.simps [simp del]

definition str_int :: "int \<Rightarrow> string" where
  "str_int i = (if i < 0 then CHR ''-'' # str_nat (nat (- i)) else str_nat (nat i))"

text \<open>
  \<^verbatim>\<open>int(s)\<close> for a string of ASCII characters, base 10, in the order CPython works
  through the string: blanks are skipped, one sign is allowed, then comes the run of
  digits and underscores, which must start with a digit and have every underscore
  between two digits; a run of more digits than the interpreter converts (4300 by
  default, from CPython 3.11 on) is refused; after the run only blanks may follow.
  Every refusal is a \<^verbatim>\<open>ValueError\<close>. The messages of the real exceptions also quote
  the string or its length; no operation of the script reads them.
\<close>

definition is_space :: "char \<Rightarrow> bool" where
  "is_space c \<longleftrightarrow>
     c \<in> set [CHR '' '', CHR 0x09, CHR 0x0A, CHR 0x0B, CHR 0x0C, CHR 0x0D]"

definition digit_val :: "char \<Rightarrow> int option" where
  "digit_val c =
     map_of [(CHR ''0'', 0), (CHR ''1'', 1), (CHR ''2'', 2), (CHR ''3'', 3), (CHR ''4'', 4),
             (CHR ''5'', 5), (CHR ''6'', 6), (CHR ''7'', 7), (CHR ''8'', 8), (CHR ''9'', 9)] c"

definition in_digit_run :: "char \<Rightarrow> bool" where
  "in_digit_run c \<longleftrightarrow> digit_val c \<noteq> None \<or> c = CHR ''_''"

fun digits_value :: "string \<Rightarrow> int \<Rightarrow> int option" where
  "digits_value [] acc = Some acc"
| "digits_value (c # cs) acc =
     (case digit_val c of
        Some d \<Rightarrow> digits_value cs (10 * acc + d)
      | None \<Rightarrow>
          if c = CHR ''_'' \<and> cs \<noteq> [] \<and> digit_val (hd cs) \<noteq> None
          then digits_value cs acc
          else None)"

definition invalid_literal :: exn where
  "invalid_literal = Exn ValueError ''invalid literal for int() with base 10''"

definition int_max_str_digits :: nat where
  "int_max_str_digits = 4300"

definition too_many_digits :: exn where
  "too_many_digits = Exn ValueError ''Exceeds the limit for integer string conversion''"

definition py_int :: "string \<Rightarrow> exn + int" where
  "py_int s =
     (let t = dropWhile is_space s;
          neg = (t \<noteq> [] \<and> hd t = CHR ''-'');
          body = (if t \<noteq> [] \<and> (hd t = CHR ''-'' \<or> hd t = CHR ''+'') then tl t else t);
          run = takeWhile in_digit_run body;
          rest = dropWhile is_space (dropWhile in_digit_run body)
      in if run = [] \<or> hd run = CHR ''_'' then Inl invalid_literal
         else (case digits_value run 0 of
                 None \<Rightarrow> Inl invalid_literal
               | Some v \<Rightarrow>
                   if int_max_str_digits < length (filter (\<lambda>c. digit_val c \<noteq> None) run)
                   then Inl too_many_digits
                   else if rest \<noteq> [] then Inl invalid_literal
                   else Inr (if neg then - v else v)))"

subsection \<open>\<^verbatim>\<open>check_health\<close>\<close>

text \<open>
  The \<^verbatim>\<open>try\<close> block is the \<open>Inr\<close> branch; \<^verbatim>\<open>except Exception as e\<close> is the \<open>Inl\<close>
  branch, which handles \<open>e\<close> when its class derives from \<^verbatim>\<open>Exception\<close> and lets it
  pass otherwise.
\<close>

definition check_health :: "world \<Rightarrow> string \<Rightarrow> string \<Rightarrow> state \<Rightarrow> (exn + bool) \<times> state" where
  "check_health w app_name url s =
     (case requests_get w url 10 s of
        (Inr response, s1) \<Rightarrow>
          if status_code response = 200
          then (Inr True, logger_info (app_name @ '': HEALTHY'') s1)
          else (Inr False,
                logger_warning
                  (app_name @ '': UNHEALTHY (HTTP '' @ str_int (status_code response) @ '')'') s1)
      | (Inl e, s1) \<Rightarrow>
          if is_Exception (exn_class e)
          then (Inr False, logger_error (app_name @ '': ERROR - '' @ exn_str e) s1)
          else (Inl e, s1))"

subsection \<open>\<^verbatim>\<open>main\<close>\<close>

text \<open>The \<^verbatim>\<open>for app_name, url in apps\<close> loop, with \<^verbatim>\<open>healthy_count\<close> as accumulator.\<close>

fun for_apps :: "world \<Rightarrow> (string \<times> string) list \<Rightarrow> int \<Rightarrow> state \<Rightarrow> (exn + int) \<times> state" where
  "for_apps w [] healthy_count s = (Inr healthy_count, s)"
| "for_apps w ((app_name, url) # rest) healthy_count s =
     (case check_health w app_name url s of
        (Inl e, s1) \<Rightarrow> (Inl e, s1)
      | (Inr healthy, s1) \<Rightarrow>
          for_apps w rest (if healthy then healthy_count + 1 else healthy_count) s1)"

text \<open>One pass through the body of \<^verbatim>\<open>while True\<close>.\<close>

definition loop_body :: "world \<Rightarrow> (string \<times> string) list \<Rightarrow> int \<Rightarrow> state \<Rightarrow> (exn + unit) \<times> state" where
  "loop_body w apps check_interval s =
     (case for_apps w apps 0 s of
        (Inl e, s1) \<Rightarrow> (Inl e, s1)
      | (Inr healthy_count, s1) \<Rightarrow>
          time_sleep w check_interval
            (if healthy_count = int (length apps)
             then logger_info ''All Django apps are healthy'' s1
             else logger_warning
                    (''Some Django apps are unhealthy! ('' @ str_int healthy_count @ ''/''
                       @ str_int (int (length apps)) @ '' healthy)'') s1))"

text \<open>
  \<^verbatim>\<open>while True\<close> has no exit of its own, so it is observed for a number of passes:
  \<open>while_True w apps i n s\<close> runs at most \<open>n\<close> passes and answers \<open>None\<close> when the loop
  is still running after them, \<open>Some e\<close> when an exception \<open>e\<close> left the loop.
\<close>

fun while_True :: "world \<Rightarrow> (string \<times> string) list \<Rightarrow> int \<Rightarrow> nat \<Rightarrow> state \<Rightarrow> exn option \<times> state" where
  "while_True w apps check_interval 0 s = (None, s)"
| "while_True w apps check_interval (Suc n) s =
     (case loop_body w apps check_interval s of
        (Inl e, s1) \<Rightarrow> (Some e, s1)
      | (Inr u, s1) \<Rightarrow> while_True w apps check_interval n s1)"

definition apps :: "(string \<times> string) list" where
  "apps = [(''Jopi'', ''http://jopi_app:8000/health/''),
           (''Synergas'', ''http://synergas_app:8000/health/'')]"

definition main :: "world \<Rightarrow> nat \<Rightarrow> state \<Rightarrow> exn option \<times> state" where
  "main w n s =
     (let s1 = logger_info ''Starting Django health watcher...'' s;
          (v, s2) = os_getenv w ''HEALTH_CHECK_INTERVAL'' ''60'' s1
      in case py_int v of
           Inl e \<Rightarrow> (Some e, s2)
         | Inr check_interval \<Rightarrow> while_True w apps check_interval n s2)"

section \<open>Vocabulary for the properties\<close>

text \<open>
  An outcome is healthy when it is a response with status 200. It is catchable when
  \<^verbatim>\<open>check_health\<close> can absorb it: any response, and any exception whose class derives
  from \<^verbatim>\<open>Exception\<close>.
\<close>

definition healthy_outcome :: "exn + response \<Rightarrow> bool" where
  "healthy_outcome out = (case out of Inr r \<Rightarrow> status_code r = 200 | Inl e \<Rightarrow> False)"

definition catchable :: "exn + response \<Rightarrow> bool" where
  "catchable out = (case out of Inr r \<Rightarrow> True | Inl e \<Rightarrow> is_Exception (exn_class e))"

text \<open>
  The outcomes the world serves when the targets are requested in order, the first of
  them as request number \<open>k\<close>.
\<close>

fun served :: "world \<Rightarrow> (string \<times> string) list \<Rightarrow> nat \<Rightarrow> (exn + response) list" where
  "served w [] k = []"
| "served w ((app_name, url) # rest) k = http w k url # served w rest (Suc k)"

text \<open>
  The durations \<^verbatim>\<open>time.sleep\<close> accepts when the monotonic clock reads \<open>now\<close>: not
  negative, convertible to nanoseconds, and with a deadline that is not negative and
  fits.
\<close>

definition sleep_ok :: "int \<Rightarrow> int \<Rightarrow> bool" where
  "sleep_ok now secs \<longleftrightarrow>
     0 \<le> secs \<and> secs \<le> PyTime_MAX_seconds
     \<and> 0 \<le> now + secs * 10 ^ 9 \<and> now + secs * 10 ^ 9 \<le> PyTime_MAX"

text \<open>The string that \<^verbatim>\<open>main\<close> hands to \<^verbatim>\<open>int\<close>.\<close>

definition configured :: "world \<Rightarrow> string" where
  "configured w = (case environ w ''HEALTH_CHECK_INTERVAL'' of None \<Rightarrow> ''60'' | Some v \<Rightarrow> v)"

text \<open>The summary line for a tally \<open>H\<close> out of \<open>N\<close> targets.\<close>

definition aggregate :: "int \<Rightarrow> int \<Rightarrow> event" where
  "aggregate H N =
     (if H = N then Log INFO ''All Django apps are healthy''
      else Log WARNING
             (''Some Django apps are unhealthy! ('' @ str_int H @ ''/'' @ str_int N @ '' healthy)''))"

subsection \<open>Concrete worlds\<close>

definition answer_all :: "exn + response \<Rightarrow> nat \<Rightarrow> string \<Rightarrow> exn + response" where
  "answer_all out k url = out"

definition answer_synergas :: "exn + response \<Rightarrow> nat \<Rightarrow> string \<Rightarrow> exn + response" where
  "answer_synergas out k url =
     (if url = ''http://synergas_app:8000/health/'' then out else Inr (Response 200))"

text \<open>A clock that reads one hour at the first sleep and 100 seconds more at each later one.\<close>

definition uptime :: "nat \<Rightarrow> int" where
  "uptime k = (3600 + 100 * int k) * 10 ^ 9"

definition world_with :: "string option \<Rightarrow> (nat \<Rightarrow> string \<Rightarrow> exn + response) \<Rightarrow> world" where
  "world_with v net =
     \<lparr>environ = (\<lambda>key. if key = ''HEALTH_CHECK_INTERVAL'' then v else None),
      http = net, monotonic = uptime\<rparr>"

text \<open>The same world with a clock that runs one sleep behind.\<close>

definition delayed_world :: "string option \<Rightarrow> (nat \<Rightarrow> string \<Rightarrow> exn + response) \<Rightarrow> world" where
  "delayed_world v net =
     \<lparr>environ = (\<lambda>key. if key = ''HEALTH_CHECK_INTERVAL'' then v else None),
      http = net, monotonic = (\<lambda>k. uptime (k - 1))\<rparr>"

definition later_state :: state where
  "later_state = \<lparr>requests_made = 2, trace = [Sleep 60]\<rparr>"

section \<open>Auxiliary facts\<close>

lemmas logger_defs = logger_info_def logger_warning_def logger_error_def logger_log_def

lemma check_health_response:
  "http w (requests_made s) url = Inr r \<Longrightarrow>
   check_health w app_name url s =
     (Inr (status_code r = 200),
      s\<lparr>requests_made := Suc (requests_made s),
        trace := trace s @ [Get url 10,
          if status_code r = 200 then Log INFO (app_name @ '': HEALTHY'')
          else Log WARNING (app_name @ '': UNHEALTHY (HTTP '' @ str_int (status_code r) @ '')'')]\<rparr>)"
  by (simp add: check_health_def requests_get_def logger_defs)

lemma check_health_raised:
  "http w (requests_made s) url = Inl e \<Longrightarrow>
   check_health w app_name url s =
     (if is_Exception (exn_class e)
      then (Inr False,
            s\<lparr>requests_made := Suc (requests_made s),
              trace := trace s @ [Get url 10, Log ERROR (app_name @ '': ERROR - '' @ exn_str e)]\<rparr>)
      else (Inl e,
            s\<lparr>requests_made := Suc (requests_made s), trace := trace s @ [Get url 10]\<rparr>))"
  by (simp add: check_health_def requests_get_def logger_defs)

lemma check_health_catchable:
  assumes "catchable (http w (requests_made s) url)"
  shows "\<exists>l m. check_health w app_name url s =
     (Inr (healthy_outcome (http w (requests_made s) url)),
      s\<lparr>requests_made := Suc (requests_made s), trace := trace s @ [Get url 10, Log l m]\<rparr>)
     \<and> (l = INFO \<longrightarrow> m = app_name @ '': HEALTHY'')"
proof (cases "http w (requests_made s) url")
  case (Inl e)
  with assms have "is_Exception (exn_class e)"
    by (simp add: catchable_def)
  with Inl show ?thesis
    by (intro exI[of _ ERROR] exI[of _ "app_name @ '': ERROR - '' @ exn_str e"])
       (simp add: check_health_raised healthy_outcome_def)
next
  case (Inr r)
  show ?thesis
  proof (cases "status_code r = 200")
    case True
    with Inr show ?thesis
      by (intro exI[of _ INFO] exI[of _ "app_name @ '': HEALTHY''"])
         (simp add: check_health_response healthy_outcome_def)
  next
    case False
    with Inr show ?thesis
      by (intro exI[of _ WARNING]
            exI[of _ "app_name @ '': UNHEALTHY (HTTP '' @ str_int (status_code r) @ '')''"])
         (simp add: check_health_response healthy_outcome_def)
  qed
qed

lemma check_health_same:
  assumes "http w1 (requests_made s1) url = http w2 (requests_made s2) url"
  shows "\<exists>r evs.
     check_health w1 app_name url s1 =
       (r, s1\<lparr>requests_made := Suc (requests_made s1), trace := trace s1 @ evs\<rparr>) \<and>
     check_health w2 app_name url s2 =
       (r, s2\<lparr>requests_made := Suc (requests_made s2), trace := trace s2 @ evs\<rparr>) \<and>
     (\<forall>e \<in> set evs. is_Get e \<or> is_Log e) \<and>
     (\<forall>e. r = Inl e \<longrightarrow> \<not> is_Exception (exn_class e))"
proof (cases "http w1 (requests_made s1) url")
  case (Inl e)
  with assms have 2: "http w2 (requests_made s2) url = Inl e" by simp
  show ?thesis
  proof (cases "is_Exception (exn_class e)")
    case True
    then show ?thesis
      by (intro exI[of _ "Inr False"]
            exI[of _ "[Get url 10, Log ERROR (app_name @ '': ERROR - '' @ exn_str e)]"])
         (simp add: check_health_raised[OF Inl] check_health_raised[OF 2])
  next
    case False
    then show ?thesis
      by (intro exI[of _ "Inl e"] exI[of _ "[Get url 10]"])
         (simp add: check_health_raised[OF Inl] check_health_raised[OF 2])
  qed
next
  case (Inr r)
  with assms have 2: "http w2 (requests_made s2) url = Inr r" by simp
  show ?thesis
    by (intro exI[of _ "Inr (status_code r = 200)"]
          exI[of _ "[Get url 10,
            if status_code r = 200 then Log INFO (app_name @ '': HEALTHY'')
            else Log WARNING (app_name @ '': UNHEALTHY (HTTP '' @ str_int (status_code r) @ '')'')]"])
       (simp add: check_health_response[OF Inr] check_health_response[OF 2])
qed

lemma for_apps_same:
  assumes "served w1 aps (requests_made s1) = served w2 aps (requests_made s2)"
  shows "\<exists>r evs k.
     for_apps w1 aps hc s1 =
       (r, s1\<lparr>requests_made := requests_made s1 + k, trace := trace s1 @ evs\<rparr>) \<and>
     for_apps w2 aps hc s2 =
       (r, s2\<lparr>requests_made := requests_made s2 + k, trace := trace s2 @ evs\<rparr>) \<and>
     (\<forall>e \<in> set evs. is_Get e \<or> is_Log e) \<and>
     (\<forall>e. r = Inl e \<longrightarrow> \<not> is_Exception (exn_class e))"
  using assms
proof (induction aps arbitrary: hc s1 s2)
  case Nil
  show ?case
    by (intro exI[of _ "Inr hc"] exI[of _ "[]"] exI[of _ 0]) simp
next
  case (Cons a rest)
  obtain n u where a: "a = (n, u)" by (cases a)
  from Cons.prems a have h: "http w1 (requests_made s1) u = http w2 (requests_made s2) u"
    and rest: "served w1 rest (Suc (requests_made s1)) = served w2 rest (Suc (requests_made s2))"
    by simp_all
  from check_health_same[OF h, of n] obtain r0 evs0 where
    c1: "check_health w1 n u s1 =
           (r0, s1\<lparr>requests_made := Suc (requests_made s1), trace := trace s1 @ evs0\<rparr>)"
    and c2: "check_health w2 n u s2 =
           (r0, s2\<lparr>requests_made := Suc (requests_made s2), trace := trace s2 @ evs0\<rparr>)"
    and k0: "\<forall>e \<in> set evs0. is_Get e \<or> is_Log e"
    and e0: "\<forall>e. r0 = Inl e \<longrightarrow> \<not> is_Exception (exn_class e)"
    by blast
  show ?case
  proof (cases r0)
    case (Inl e)
    with c1 c2 k0 e0 show ?thesis
      by (intro exI[of _ "Inl e"] exI[of _ evs0] exI[of _ 1]) (simp add: a)
  next
    case (Inr b)
    let ?t1 = "s1\<lparr>requests_made := Suc (requests_made s1), trace := trace s1 @ evs0\<rparr>"
    let ?t2 = "s2\<lparr>requests_made := Suc (requests_made s2), trace := trace s2 @ evs0\<rparr>"
    let ?hc = "if b then hc + 1 else hc"
    from rest have "served w1 rest (requests_made ?t1) = served w2 rest (requests_made ?t2)"
      by simp
    from Cons.IH[OF this, of ?hc] obtain r evs k where
      f1: "for_apps w1 rest ?hc ?t1 =
             (r, ?t1\<lparr>requests_made := requests_made ?t1 + k, trace := trace ?t1 @ evs\<rparr>)"
      and f2: "for_apps w2 rest ?hc ?t2 =
             (r, ?t2\<lparr>requests_made := requests_made ?t2 + k, trace := trace ?t2 @ evs\<rparr>)"
      and k1: "\<forall>e \<in> set evs. is_Get e \<or> is_Log e"
      and e1: "\<forall>e. r = Inl e \<longrightarrow> \<not> is_Exception (exn_class e)"
      by blast
    from c1 c2 f1 f2 k0 k1 e1 Inr show ?thesis
      by (intro exI[of _ r] exI[of _ "evs0 @ evs"] exI[of _ "Suc k"]) (auto simp add: a)
  qed
qed

lemma for_apps_completes:
  assumes "list_all catchable (served w aps (requests_made s))"
  shows "\<exists>evs. for_apps w aps hc s =
      (Inr (hc + int (length (filter healthy_outcome (served w aps (requests_made s))))),
       s\<lparr>requests_made := requests_made s + length aps, trace := trace s @ evs\<rparr>)
     \<and> filter is_Get evs = map (\<lambda>(n, u). Get u 10) aps
     \<and> length (filter is_Log evs) = length aps
     \<and> (\<forall>e \<in> set evs. is_Get e \<or> is_Log e)
     \<and> (\<forall>m. Log INFO m \<in> set evs \<longrightarrow> (\<exists>n. m = n @ '': HEALTHY''))"
  using assms
proof (induction aps arbitrary: hc s)
  case Nil
  show ?case by (intro exI[of _ "[]"]) simp
next
  case (Cons a rest)
  obtain n u where a: "a = (n, u)" by (cases a)
  let ?out = "http w (requests_made s) u"
  from Cons.prems a have c: "catchable ?out"
    and rest: "list_all catchable (served w rest (Suc (requests_made s)))"
    by simp_all
  from check_health_catchable[OF c, of n] obtain l m where
    ch: "check_health w n u s =
      (Inr (healthy_outcome ?out),
       s\<lparr>requests_made := Suc (requests_made s), trace := trace s @ [Get u 10, Log l m]\<rparr>)"
    and lm: "l = INFO \<longrightarrow> m = n @ '': HEALTHY''"
    by blast
  let ?s1 = "s\<lparr>requests_made := Suc (requests_made s), trace := trace s @ [Get u 10, Log l m]\<rparr>"
  let ?hc1 = "if healthy_outcome ?out then hc + 1 else hc"
  from rest have rest1: "list_all catchable (served w rest (requests_made ?s1))" by simp
  from Cons.IH[OF rest1, of ?hc1] obtain evs where
    run: "for_apps w rest ?hc1 ?s1 =
      (Inr (?hc1 + int (length (filter healthy_outcome (served w rest (requests_made ?s1))))),
       ?s1\<lparr>requests_made := requests_made ?s1 + length rest, trace := trace ?s1 @ evs\<rparr>)"
    and gets: "filter is_Get evs = map (\<lambda>(n, u). Get u 10) rest"
    and logs: "length (filter is_Log evs) = length rest"
    and kinds: "\<forall>e \<in> set evs. is_Get e \<or> is_Log e"
    and infos: "\<forall>m. Log INFO m \<in> set evs \<longrightarrow> (\<exists>n. m = n @ '': HEALTHY'')"
    by blast
  show ?case
  proof (intro exI[of _ "[Get u 10, Log l m] @ evs"] conjI)
    show "for_apps w (a # rest) hc s =
      (Inr (hc + int (length (filter healthy_outcome (served w (a # rest) (requests_made s))))),
       s\<lparr>requests_made := requests_made s + length (a # rest),
         trace := trace s @ [Get u 10, Log l m] @ evs\<rparr>)"
      using ch run by (simp add: a)
    show "filter is_Get ([Get u 10, Log l m] @ evs) = map (\<lambda>(n, u). Get u 10) (a # rest)"
      using gets by (simp add: a)
    show "length (filter is_Log ([Get u 10, Log l m] @ evs)) = length (a # rest)"
      using logs by simp
    show "\<forall>e \<in> set ([Get u 10, Log l m] @ evs). is_Get e \<or> is_Log e"
      using kinds by simp
    show "\<forall>m'. Log INFO m' \<in> set ([Get u 10, Log l m] @ evs) \<longrightarrow> (\<exists>n. m' = n @ '': HEALTHY'')"
      using infos lm by auto
  qed
qed

lemma is_Sleep_only: "is_Sleep e \<Longrightarrow> \<not> is_Get e \<and> \<not> is_Log e"
  by (cases e) simp_all

lemma no_sleep_among: "\<forall>e \<in> set evs. is_Get e \<or> is_Log e \<Longrightarrow> filter is_Sleep evs = []"
  by (auto simp add: filter_empty_conv dest: is_Sleep_only)

lemma sleeps_made_probe:
  "\<forall>e \<in> set evs. is_Get e \<or> is_Log e \<Longrightarrow>
   sleeps_made (s\<lparr>requests_made := k, trace := trace s @ evs\<rparr>) = sleeps_made s"
  by (simp add: sleeps_made_def no_sleep_among)

lemma sleeps_made_pass:
  "\<forall>e \<in> set evs. is_Get e \<or> is_Log e \<Longrightarrow>
   sleeps_made (s\<lparr>requests_made := k, trace := trace s @ evs @ [Sleep iv]\<rparr>)
     = Suc (sleeps_made s)"
  by (simp add: sleeps_made_def no_sleep_among)

lemma PyTime_MAX_seconds_pos: "0 \<le> PyTime_MAX_seconds"
  by (simp add: PyTime_MAX_seconds_def PyTime_MAX_def)

lemma sleep_error_None: "sleep_error now secs = None \<longleftrightarrow> sleep_ok now secs"
  using PyTime_MAX_seconds_pos by (auto simp add: sleep_error_def sleep_ok_def)

lemma sleep_error_class: "sleep_error now secs = Some e \<Longrightarrow> is_Exception (exn_class e)"
  by (auto simp add: sleep_error_def split: if_splits)

lemma time_sleep_eq:
  "time_sleep w secs s =
     ((case sleep_error (monotonic w (sleeps_made s)) secs of
         None \<Rightarrow> Inr () | Some e \<Rightarrow> Inl e),
      s\<lparr>trace := trace s @
           (case sleep_error (monotonic w (sleeps_made s)) secs of
              None \<Rightarrow> [Sleep secs] | Some e \<Rightarrow> [])\<rparr>)"
  by (simp add: time_sleep_def split: option.split)

lemma time_sleep_ok:
  "sleep_ok (monotonic w (sleeps_made s)) secs \<Longrightarrow>
   time_sleep w secs s = (Inr (), s\<lparr>trace := trace s @ [Sleep secs]\<rparr>)"
  by (simp add: time_sleep_def sleep_error_None[symmetric])

lemma time_sleep_refused:
  "\<not> sleep_ok (monotonic w (sleeps_made s)) secs \<Longrightarrow>
   \<exists>e. time_sleep w secs s = (Inl e, s) \<and> is_Exception (exn_class e)
     \<and> sleep_error (monotonic w (sleeps_made s)) secs = Some e"
  by (cases "sleep_error (monotonic w (sleeps_made s)) secs")
     (auto simp add: time_sleep_def sleep_error_None[symmetric] sleep_error_class)

lemma loop_body_same:
  assumes "served w1 aps (requests_made s1) = served w2 aps (requests_made s2)"
  shows "\<exists>evs k r1 sl1 r2 sl2.
     loop_body w1 aps iv s1 =
       (r1, s1\<lparr>requests_made := requests_made s1 + k, trace := trace s1 @ evs @ sl1\<rparr>) \<and>
     loop_body w2 aps iv s2 =
       (r2, s2\<lparr>requests_made := requests_made s2 + k, trace := trace s2 @ evs @ sl2\<rparr>) \<and>
     (\<forall>e \<in> set evs. is_Get e \<or> is_Log e) \<and>
     (sl1 = [] \<or> sl1 = [Sleep iv]) \<and> (sl2 = [] \<or> sl2 = [Sleep iv]) \<and>
     (r1 = Inr () \<longleftrightarrow> sl1 = [Sleep iv]) \<and> (r2 = Inr () \<longleftrightarrow> sl2 = [Sleep iv]) \<and>
     (\<forall>e. r1 = Inl e \<and> is_Exception (exn_class e) \<longrightarrow>
           sleep_error (monotonic w1 (sleeps_made s1)) iv = Some e) \<and>
     (\<forall>e. r2 = Inl e \<and> is_Exception (exn_class e) \<longrightarrow>
           sleep_error (monotonic w2 (sleeps_made s2)) iv = Some e) \<and>
     (monotonic w1 (sleeps_made s1) = monotonic w2 (sleeps_made s2) \<longrightarrow>
        r1 = r2 \<and> sl1 = sl2)"
proof -
  from for_apps_same[OF assms, of 0] obtain r0 evs0 k where
    f1: "for_apps w1 aps 0 s1 =
           (r0, s1\<lparr>requests_made := requests_made s1 + k, trace := trace s1 @ evs0\<rparr>)"
    and f2: "for_apps w2 aps 0 s2 =
           (r0, s2\<lparr>requests_made := requests_made s2 + k, trace := trace s2 @ evs0\<rparr>)"
    and k0: "\<forall>e \<in> set evs0. is_Get e \<or> is_Log e"
    and e0: "\<forall>e. r0 = Inl e \<longrightarrow> \<not> is_Exception (exn_class e)"
    by blast
  show ?thesis
  proof (cases r0)
    case (Inl e)
    with f1 f2 k0 e0 show ?thesis
      by (intro exI[of _ evs0] exI[of _ k] exI[of _ "Inl e"] exI[of _ "[]"])
         (simp add: loop_body_def)
  next
    case (Inr hc)
    let ?agg = "aggregate hc (int (length aps))"
    let ?t1 = "s1\<lparr>requests_made := requests_made s1 + k, trace := trace s1 @ evs0 @ [?agg]\<rparr>"
    let ?t2 = "s2\<lparr>requests_made := requests_made s2 + k, trace := trace s2 @ evs0 @ [?agg]\<rparr>"
    let ?m1 = "monotonic w1 (sleeps_made s1)"
    let ?m2 = "monotonic w2 (sleeps_made s2)"
    let ?r1 = "case sleep_error ?m1 iv of None \<Rightarrow> Inr () | Some e \<Rightarrow> Inl e"
    let ?r2 = "case sleep_error ?m2 iv of None \<Rightarrow> Inr () | Some e \<Rightarrow> Inl e"
    let ?sl1 = "case sleep_error ?m1 iv of None \<Rightarrow> [Sleep iv] | Some e \<Rightarrow> []"
    let ?sl2 = "case sleep_error ?m2 iv of None \<Rightarrow> [Sleep iv] | Some e \<Rightarrow> []"
    have a: "is_Log ?agg" by (simp add: aggregate_def)
    with k0 have ka: "\<forall>e \<in> set (evs0 @ [?agg]). is_Get e \<or> is_Log e" by simp
    have m1: "sleeps_made ?t1 = sleeps_made s1" and m2: "sleeps_made ?t2 = sleeps_made s2"
      using sleeps_made_probe[OF ka] by simp_all
    from f1 Inr have "loop_body w1 aps iv s1 = time_sleep w1 iv ?t1"
      by (simp add: loop_body_def aggregate_def logger_defs)
    then have b1: "loop_body w1 aps iv s1 =
        (?r1, s1\<lparr>requests_made := requests_made s1 + k,
                  trace := trace s1 @ (evs0 @ [?agg]) @ ?sl1\<rparr>)"
      by (simp add: time_sleep_eq m1)
    from f2 Inr have "loop_body w2 aps iv s2 = time_sleep w2 iv ?t2"
      by (simp add: loop_body_def aggregate_def logger_defs)
    then have b2: "loop_body w2 aps iv s2 =
        (?r2, s2\<lparr>requests_made := requests_made s2 + k,
                  trace := trace s2 @ (evs0 @ [?agg]) @ ?sl2\<rparr>)"
      by (simp add: time_sleep_eq m2)
    have c1: "(?sl1 = [] \<or> ?sl1 = [Sleep iv]) \<and> (?r1 = Inr () \<longleftrightarrow> ?sl1 = [Sleep iv])
        \<and> (\<forall>e. ?r1 = Inl e \<and> is_Exception (exn_class e) \<longrightarrow> sleep_error ?m1 iv = Some e)"
      by (cases "sleep_error ?m1 iv") simp_all
    have c2: "(?sl2 = [] \<or> ?sl2 = [Sleep iv]) \<and> (?r2 = Inr () \<longleftrightarrow> ?sl2 = [Sleep iv])
        \<and> (\<forall>e. ?r2 = Inl e \<and> is_Exception (exn_class e) \<longrightarrow> sleep_error ?m2 iv = Some e)"
      by (cases "sleep_error ?m2 iv") simp_all
    have c3: "?m1 = ?m2 \<longrightarrow> ?r1 = ?r2 \<and> ?sl1 = ?sl2" by simp
    from b1 b2 ka c1 c2 c3 show ?thesis
      by (intro exI[of _ "evs0 @ [?agg]"] exI[of _ k] exI[of _ ?r1] exI[of _ ?sl1]
            exI[of _ ?r2] exI[of _ ?sl2]) blast
  qed
qed

lemma while_True_shape:
  "\<exists>r evs k.
     while_True w aps iv n s =
       (r, s\<lparr>requests_made := requests_made s + k, trace := trace s @ evs\<rparr>) \<and>
     (\<forall>e \<in> set evs. is_Get e \<or> is_Log e \<or> e = Sleep iv) \<and>
     (\<forall>e. r = Some e \<and> is_Exception (exn_class e) \<longrightarrow>
           (\<exists>j<n. sleep_error (monotonic w (sleeps_made s + j)) iv = Some e))"
proof (induction n arbitrary: s)
  case 0
  show ?case by (intro exI[of _ None] exI[of _ "[]"] exI[of _ 0]) simp
next
  case (Suc n)
  from loop_body_same[of w aps s w s iv] obtain evs0 k0 r0 sl0 where
    b: "loop_body w aps iv s =
          (r0, s\<lparr>requests_made := requests_made s + k0, trace := trace s @ evs0 @ sl0\<rparr>)"
    and kb: "\<forall>e \<in> set evs0. is_Get e \<or> is_Log e"
    and sb: "sl0 = [] \<or> sl0 = [Sleep iv]"
    and rb: "r0 = Inr () \<longleftrightarrow> sl0 = [Sleep iv]"
    and eb: "\<forall>e. r0 = Inl e \<and> is_Exception (exn_class e) \<longrightarrow>
                sleep_error (monotonic w (sleeps_made s)) iv = Some e"
    by blast
  from kb sb have kinds0: "\<forall>e \<in> set (evs0 @ sl0). is_Get e \<or> is_Log e \<or> e = Sleep iv"
    by auto
  show ?case
  proof (cases r0)
    case (Inl e)
    have "\<forall>e'. Some e = Some e' \<and> is_Exception (exn_class e') \<longrightarrow>
            (\<exists>j<Suc n. sleep_error (monotonic w (sleeps_made s + j)) iv = Some e')"
    proof (intro allI impI)
      fix e'
      assume "Some e = Some e' \<and> is_Exception (exn_class e')"
      with eb Inl have "sleep_error (monotonic w (sleeps_made s + 0)) iv = Some e'" by simp
      then show "\<exists>j<Suc n. sleep_error (monotonic w (sleeps_made s + j)) iv = Some e'"
        by (intro exI[of _ 0]) simp
    qed
    with b kinds0 Inl show ?thesis
      by (intro exI[of _ "Some e"] exI[of _ "evs0 @ sl0"] exI[of _ k0]) simp
  next
    case (Inr u)
    with rb have sl0: "sl0 = [Sleep iv]" by simp
    let ?t = "s\<lparr>requests_made := requests_made s + k0, trace := trace s @ evs0 @ [Sleep iv]\<rparr>"
    have st: "sleeps_made ?t = Suc (sleeps_made s)"
      using sleeps_made_pass[OF kb] by simp
    from Suc.IH[of ?t] obtain r evs k where
      w: "while_True w aps iv n ?t =
            (r, ?t\<lparr>requests_made := requests_made ?t + k, trace := trace ?t @ evs\<rparr>)"
      and kw: "\<forall>e \<in> set evs. is_Get e \<or> is_Log e \<or> e = Sleep iv"
      and ew: "\<forall>e. r = Some e \<and> is_Exception (exn_class e) \<longrightarrow>
                (\<exists>j<n. sleep_error (monotonic w (sleeps_made ?t + j)) iv = Some e)"
      by blast
    have ex: "\<forall>e. r = Some e \<and> is_Exception (exn_class e) \<longrightarrow>
                (\<exists>j<Suc n. sleep_error (monotonic w (sleeps_made s + j)) iv = Some e)"
    proof (intro allI impI)
      fix e
      assume "r = Some e \<and> is_Exception (exn_class e)"
      with ew obtain j where "j < n"
        and "sleep_error (monotonic w (sleeps_made ?t + j)) iv = Some e"
        by blast
      then have "Suc j < Suc n"
        and "sleep_error (monotonic w (sleeps_made s + Suc j)) iv = Some e"
        by (simp_all add: st)
      then show "\<exists>j<Suc n. sleep_error (monotonic w (sleeps_made s + j)) iv = Some e"
        by blast
    qed
    from kinds0 kw sl0 have kinds: "\<forall>e \<in> set (evs0 @ [Sleep iv] @ evs).
        is_Get e \<or> is_Log e \<or> e = Sleep iv"
      by auto
    from b w Inr sl0 have "while_True w aps iv (Suc n) s =
        (r, s\<lparr>requests_made := requests_made s + (k0 + k),
              trace := trace s @ evs0 @ [Sleep iv] @ evs\<rparr>)"
      by (simp add: add.assoc)
    with kinds ex show ?thesis
      by (intro exI[of _ r] exI[of _ "evs0 @ [Sleep iv] @ evs"] exI[of _ "k0 + k"]) simp
  qed
qed

lemma events_sinceI: "trace t = trace s @ evs \<Longrightarrow> events_since s t = evs"
  by (simp add: events_since_def)

lemma healthy_line_not_summary: "n @ '': HEALTHY'' \<noteq> ''All Django apps are healthy''"
proof
  assume "n @ '': HEALTHY'' = ''All Django apps are healthy''"
  then have "last (n @ '': HEALTHY'') = last ''All Django apps are healthy''"
    by (rule arg_cong)
  then show False by simp
qed

lemma served_catchable:
  assumes "\<forall>k u. catchable (http w k u)"
  shows "list_all catchable (served w aps k)"
proof (induction aps arbitrary: k)
  case Nil
  show ?case by simp
next
  case (Cons a rest)
  obtain n u where "a = (n, u)" by (cases a)
  with Cons assms show ?case by simp
qed

lemma loop_body_catchable:
  assumes "list_all catchable (served w aps (requests_made s))"
  shows "\<exists>evs sl r. loop_body w aps iv s =
      (r,
       s\<lparr>requests_made := requests_made s + length aps,
         trace := trace s @ evs
           @ aggregate (int (length (filter healthy_outcome (served w aps (requests_made s)))))
               (int (length aps)) # sl\<rparr>)
     \<and> (sl = [] \<or> sl = [Sleep iv])
     \<and> (sleep_ok (monotonic w (sleeps_made s)) iv \<longrightarrow> r = Inr () \<and> sl = [Sleep iv])
     \<and> filter is_Get evs = map (\<lambda>(n, u). Get u 10) aps
     \<and> length (filter is_Log evs) = length aps
     \<and> (\<forall>e \<in> set evs. is_Get e \<or> is_Log e)
     \<and> (\<forall>m. Log INFO m \<in> set evs \<longrightarrow> (\<exists>n. m = n @ '': HEALTHY''))"
proof -
  let ?H = "int (length (filter healthy_outcome (served w aps (requests_made s))))"
  let ?agg = "aggregate ?H (int (length aps))"
  from for_apps_completes[OF assms, of 0] obtain evs where
    run: "for_apps w aps 0 s =
      (Inr ?H, s\<lparr>requests_made := requests_made s + length aps, trace := trace s @ evs\<rparr>)"
    and rest: "filter is_Get evs = map (\<lambda>(n, u). Get u 10) aps"
      "length (filter is_Log evs) = length aps"
      "\<forall>e \<in> set evs. is_Get e \<or> is_Log e"
      "\<forall>m. Log INFO m \<in> set evs \<longrightarrow> (\<exists>n. m = n @ '': HEALTHY'')"
    by auto
  let ?t = "s\<lparr>requests_made := requests_made s + length aps, trace := trace s @ evs @ [?agg]\<rparr>"
  let ?m = "monotonic w (sleeps_made s)"
  let ?r = "case sleep_error ?m iv of None \<Rightarrow> Inr () | Some e \<Rightarrow> Inl e"
  let ?sl = "case sleep_error ?m iv of None \<Rightarrow> [Sleep iv] | Some e \<Rightarrow> []"
  have "is_Log ?agg" by (simp add: aggregate_def)
  with rest(3) have "\<forall>e \<in> set (evs @ [?agg]). is_Get e \<or> is_Log e" by simp
  from sleeps_made_probe[OF this] have m: "sleeps_made ?t = sleeps_made s" by simp
  from run have "loop_body w aps iv s = time_sleep w iv ?t"
    by (simp add: loop_body_def aggregate_def logger_defs)
  then have body: "loop_body w aps iv s =
      (?r, s\<lparr>requests_made := requests_made s + length aps,
              trace := trace s @ evs @ ?agg # ?sl\<rparr>)"
    by (simp add: time_sleep_eq m)
  have c: "(?sl = [] \<or> ?sl = [Sleep iv])
      \<and> (sleep_ok ?m iv \<longrightarrow> ?r = Inr () \<and> ?sl = [Sleep iv])"
    by (cases "sleep_error ?m iv") (simp_all add: sleep_error_None[symmetric])
  from body c rest show ?thesis
    by (intro exI[of _ evs] exI[of _ ?sl] exI[of _ ?r]) blast
qed

lemma while_True_runs:
  assumes "\<forall>k u. catchable (http w k u)"
  shows "\<forall>j<n. sleep_ok (monotonic w (sleeps_made s + j)) iv \<Longrightarrow>
     \<exists>evs. while_True w aps iv n s =
      (None, s\<lparr>requests_made := requests_made s + n * length aps, trace := trace s @ evs\<rparr>)
     \<and> length (filter is_Sleep evs) = n
     \<and> length (filter is_Get evs) = n * length aps"
proof (induction n arbitrary: s)
  case 0
  show ?case by (intro exI[of _ "[]"]) simp
next
  case (Suc n)
  from Suc.prems have ok0: "sleep_ok (monotonic w (sleeps_made s)) iv"
    by (metis add.right_neutral zero_less_Suc)
  from served_catchable[OF assms]
  have "list_all catchable (served w aps (requests_made s))" .
  from loop_body_catchable[OF this, of iv] ok0 obtain evs0 agg where
    b: "loop_body w aps iv s =
      (Inr (), s\<lparr>requests_made := requests_made s + length aps,
                 trace := trace s @ evs0 @ agg # [Sleep iv]\<rparr>)"
    and agg: "is_Log agg"
    and g: "filter is_Get evs0 = map (\<lambda>(n, u). Get u 10) aps"
    and k: "\<forall>e \<in> set evs0. is_Get e \<or> is_Log e"
    by (auto simp add: aggregate_def)
  let ?t = "s\<lparr>requests_made := requests_made s + length aps,
              trace := trace s @ evs0 @ agg # [Sleep iv]\<rparr>"
  from k agg have "\<forall>e \<in> set (evs0 @ [agg]). is_Get e \<or> is_Log e" by simp
  from sleeps_made_pass[OF this] have st: "sleeps_made ?t = Suc (sleeps_made s)"
    by simp
  have "\<forall>j<n. sleep_ok (monotonic w (sleeps_made ?t + j)) iv"
  proof (intro allI impI)
    fix j assume "j < n"
    then have "Suc j < Suc n" by simp
    with Suc.prems have "sleep_ok (monotonic w (sleeps_made s + Suc j)) iv" by blast
    then show "sleep_ok (monotonic w (sleeps_made ?t + j)) iv" by (simp add: st)
  qed
  from Suc.IH[OF this] obtain evs where
    w: "while_True w aps iv n ?t =
      (None, ?t\<lparr>requests_made := requests_made ?t + n * length aps, trace := trace ?t @ evs\<rparr>)"
    and sl: "length (filter is_Sleep evs) = n"
    and gt: "length (filter is_Get evs) = n * length aps"
    by blast
  from g have g': "length (filter is_Get evs0) = length aps"
    by (metis length_map)
  from agg have agg': "\<not> is_Sleep agg" "\<not> is_Get agg" by (cases agg; simp)+
  from b w sl gt g' agg' no_sleep_among[OF k] show ?case
    by (intro exI[of _ "evs0 @ agg # Sleep iv # evs"]) (simp add: add.assoc)
qed

lemma main_unfold:
  "main w n s =
     (case py_int (configured w) of
        Inl e \<Rightarrow>
          (Some e, s\<lparr>trace := trace s @ [Log INFO ''Starting Django health watcher...'',
                                          Getenv ''HEALTH_CHECK_INTERVAL'']\<rparr>)
      | Inr iv \<Rightarrow>
          while_True w apps iv n
            (s\<lparr>trace := trace s @ [Log INFO ''Starting Django health watcher...'',
                                   Getenv ''HEALTH_CHECK_INTERVAL'']\<rparr>))"
  by (simp add: main_def os_getenv_def configured_def logger_defs Let_def split: sum.split)


lemma str_int_503: "str_int 503 = ''503''"
  by code_simp

lemma str_int_1: "str_int 1 = ''1''"
  by code_simp

lemma str_int_2: "str_int 2 = ''2''"
  by code_simp



lemma sleep_ok_uptime_5: "j < 3 \<Longrightarrow> sleep_ok (uptime j) 5"
  by (simp add: sleep_ok_def uptime_def PyTime_MAX_seconds_def PyTime_MAX_def)

lemma sleep_error_minus_2:
  "sleep_error now (- 2) = Some (Exn ValueError ''sleep length must be non-negative'')"
  by (simp add: sleep_error_def PyTime_MAX_seconds_def PyTime_MAX_def)

lemma py_int_5: "py_int ''5'' = Inr 5"
  by code_simp





section \<open>Properties of \<^verbatim>\<open>check_health\<close>\<close>

text \<open>
  C3. When the GET request of a target completes with status 200, \<^verbatim>\<open>check_health\<close>
  returns \<open>True\<close> (healthy) and, after the request, logs exactly one line, at level
  INFO: the target name followed by \<open>: HEALTHY\<close>.
\<close>

theorem check_health_200_healthy:
  assumes "http w (requests_made s) url = Inr r" and "status_code r = 200"
  shows "check_health w app_name url s =
           (Inr True,
            s\<lparr>requests_made := Suc (requests_made s),
              trace := trace s @ [Get url 10, Log INFO (app_name @ '': HEALTHY'')]\<rparr>)"
  using assms by (simp add: check_health_def requests_get_def logger_info_def logger_log_def)

theorem check_health_200_healthy_witness:
  "check_health (world_with None (answer_all (Inr (Response 200))))
     ''Jopi'' ''http://jopi_app:8000/health/'' init_state =
   (Inr True,
    \<lparr>requests_made = 1,
      trace = [Get ''http://jopi_app:8000/health/'' 10, Log INFO ''Jopi: HEALTHY'']\<rparr>)"
  using check_health_200_healthy
    [of "world_with None (answer_all (Inr (Response 200)))" init_state
        "''http://jopi_app:8000/health/''" "Response 200" "''Jopi''"]
  by (simp add: world_with_def answer_all_def init_state_def)

text \<open>
  C4, as the code has it. When the GET request of a target completes with a status
  \<open>S\<close> other than 200, \<^verbatim>\<open>check_health\<close> returns \<open>False\<close> and, after the request, logs
  exactly one line, at level WARNING: the target name followed by
  \<open>: UNHEALTHY (HTTP S)\<close>. The status is in the log line only.
\<close>

theorem check_health_non200_unhealthy:
  assumes "http w (requests_made s) url = Inr r" and "status_code r \<noteq> 200"
  shows "check_health w app_name url s =
           (Inr False,
            s\<lparr>requests_made := Suc (requests_made s),
              trace := trace s @ [Get url 10,
                Log WARNING
                  (app_name @ '': UNHEALTHY (HTTP '' @ str_int (status_code r) @ '')'')]\<rparr>)"
  using assms by (simp add: check_health_def requests_get_def logger_warning_def logger_log_def)

theorem check_health_non200_unhealthy_witness:
  "check_health (world_with None (answer_synergas (Inr (Response 503))))
     ''Synergas'' ''http://synergas_app:8000/health/'' init_state =
   (Inr False,
    \<lparr>requests_made = 1,
      trace = [Get ''http://synergas_app:8000/health/'' 10,
               Log WARNING ''Synergas: UNHEALTHY (HTTP 503)'']\<rparr>)"
  using check_health_non200_unhealthy
    [of "world_with None (answer_synergas (Inr (Response 503)))" init_state
        "''http://synergas_app:8000/health/''" "Response 503" "''Synergas''"]
  by (simp add: world_with_def answer_synergas_def init_state_def str_int_503)

text \<open>
  C4 as stated has the returned value carry the status code. It does not: the value
  returned for a 404 is the value returned for a 503.
\<close>

theorem check_health_status_not_returned:
  "fst (check_health (world_with None (answer_all (Inr (Response 404))))
          ''Jopi'' ''http://jopi_app:8000/health/'' init_state) =
   fst (check_health (world_with None (answer_all (Inr (Response 503))))
          ''Jopi'' ''http://jopi_app:8000/health/'' init_state)"
  by (simp add: check_health_def requests_get_def world_with_def answer_all_def init_state_def)

text \<open>
  C1. When the request of a target raises an exception of a class derived from
  \<^verbatim>\<open>Exception\<close> (timeout, connection error, DNS failure, any other such fault),
  \<^verbatim>\<open>check_health\<close> does not raise: it returns \<open>False\<close> and logs one line at level
  ERROR, the target name followed by \<open>: ERROR - \<close> and the text of the exception.
  The loop over the targets then goes on with the remaining targets and an unchanged
  tally.
\<close>

theorem check_health_fault_caught:
  assumes "http w (requests_made s) url = Inl e" and "is_Exception (exn_class e)"
  shows "check_health w app_name url s =
           (Inr False,
            s\<lparr>requests_made := Suc (requests_made s),
              trace := trace s @ [Get url 10, Log ERROR (app_name @ '': ERROR - '' @ exn_str e)]\<rparr>)
         \<and> for_apps w ((app_name, url) # rest) healthy_count s =
             for_apps w rest healthy_count
               (s\<lparr>requests_made := Suc (requests_made s),
                  trace := trace s
                    @ [Get url 10, Log ERROR (app_name @ '': ERROR - '' @ exn_str e)]\<rparr>)"
  using assms by (simp add: check_health_def requests_get_def logger_error_def logger_log_def)

theorem check_health_fault_caught_witness:
  "check_health (world_with None (answer_synergas (Inl (Exn Timeout ''Read timed out.''))))
     ''Synergas'' ''http://synergas_app:8000/health/'' init_state =
   (Inr False,
    \<lparr>requests_made = 1,
      trace = [Get ''http://synergas_app:8000/health/'' 10,
               Log ERROR ''Synergas: ERROR - Read timed out.'']\<rparr>)"
  using check_health_fault_caught
    [of "world_with None (answer_synergas (Inl (Exn Timeout ''Read timed out.'')))" init_state
        "''http://synergas_app:8000/health/''" "Exn Timeout ''Read timed out.''" "''Synergas''"]
  by (simp add: world_with_def answer_synergas_def init_state_def)

text \<open>
  C10. The value \<^verbatim>\<open>check_health\<close> returns is \<open>True\<close> exactly when the status is 200,
  and the one value \<open>False\<close> for every other status and for every caught fault. The
  loop over the targets therefore computes the same tally for any two worlds that
  agree on which targets answered 200, whatever the other statuses and faults are.
\<close>

theorem check_health_boolean:
  "(fst (check_health w app_name url s) = Inr True
      \<longleftrightarrow> healthy_outcome (http w (requests_made s) url))
   \<and> (catchable (http w (requests_made s) url)
        \<and> \<not> healthy_outcome (http w (requests_made s) url)
      \<longrightarrow> fst (check_health w app_name url s) = Inr False)
   \<and> (list_all catchable (served w1 aps (requests_made s1))
        \<and> list_all catchable (served w2 aps (requests_made s2))
        \<and> map healthy_outcome (served w1 aps (requests_made s1))
            = map healthy_outcome (served w2 aps (requests_made s2))
      \<longrightarrow> fst (for_apps w1 aps healthy_count s1) = fst (for_apps w2 aps healthy_count s2))"
proof (intro conjI impI)
  show "fst (check_health w app_name url s) = Inr True
          \<longleftrightarrow> healthy_outcome (http w (requests_made s) url)"
  proof (cases "http w (requests_made s) url")
    case (Inl e)
    then show ?thesis by (simp add: check_health_raised healthy_outcome_def)
  next
    case (Inr r)
    then show ?thesis by (simp add: check_health_response healthy_outcome_def)
  qed
next
  assume "catchable (http w (requests_made s) url)
            \<and> \<not> healthy_outcome (http w (requests_made s) url)"
  with check_health_catchable[of w s url app_name]
  show "fst (check_health w app_name url s) = Inr False"
    by auto
next
  assume a: "list_all catchable (served w1 aps (requests_made s1))
        \<and> list_all catchable (served w2 aps (requests_made s2))
        \<and> map healthy_outcome (served w1 aps (requests_made s1))
            = map healthy_outcome (served w2 aps (requests_made s2))"
  have count: "\<And>outs. length (filter healthy_outcome outs)
                  = length (filter (\<lambda>b. b) (map healthy_outcome outs))"
    by (simp add: filter_map comp_def)
  from a have "length (filter healthy_outcome (served w1 aps (requests_made s1)))
             = length (filter healthy_outcome (served w2 aps (requests_made s2)))"
    by (simp add: count)
  with a for_apps_completes[of w1 aps s1 healthy_count]
         for_apps_completes[of w2 aps s2 healthy_count]
  show "fst (for_apps w1 aps healthy_count s1) = fst (for_apps w2 aps healthy_count s2)"
    by auto
qed

theorem check_health_boolean_witness:
  "fst (check_health (world_with None (answer_all (Inr (Response 503))))
          ''Jopi'' ''http://jopi_app:8000/health/'' init_state) = Inr False
   \<and> fst (check_health (world_with None (answer_all (Inl (Exn ConnectionError ''refused''))))
          ''Jopi'' ''http://jopi_app:8000/health/'' init_state) = Inr False
   \<and> fst (for_apps (world_with None (answer_synergas (Inr (Response 503)))) apps 0 init_state)
     = fst (for_apps (world_with None (answer_synergas (Inl (Exn ConnectionError ''refused''))))
              apps 0 init_state)"
  using
    check_health_boolean
      [of "world_with None (answer_all (Inr (Response 503)))" "''Jopi''"
          "''http://jopi_app:8000/health/''" init_state
          "world_with None (answer_synergas (Inr (Response 503)))" apps init_state
          "world_with None (answer_synergas (Inl (Exn ConnectionError ''refused'')))" init_state 0]
    check_health_boolean
      [of "world_with None (answer_all (Inl (Exn ConnectionError ''refused'')))" "''Jopi''"
          "''http://jopi_app:8000/health/''" init_state
          "world_with None (answer_synergas (Inr (Response 503)))" "[]" init_state
          "world_with None (answer_synergas (Inr (Response 503)))" init_state 0]
  by (simp add: world_with_def answer_all_def answer_synergas_def init_state_def apps_def
        catchable_def healthy_outcome_def)

section \<open>Properties of one pass of the loop\<close>

text \<open>
  C6. In one pass, when no request is cut short by an exception outside
  \<^verbatim>\<open>Exception\<close>, the targets are requested one after the other in the order of the
  list, one GET with timeout 10 for each and none besides, each followed by one log
  line; the tally is the number of targets whose request was answered with status 200.
\<close>

theorem for_apps_sequential:
  assumes "list_all catchable (served w aps (requests_made s))"
  shows "\<exists>s'. for_apps w aps 0 s =
           (Inr (int (length (filter healthy_outcome (served w aps (requests_made s))))), s')
         \<and> requests_made s' = requests_made s + length aps
         \<and> filter is_Get (events_since s s') = map (\<lambda>(app_name, url). Get url 10) aps
         \<and> length (filter is_Log (events_since s s')) = length aps
         \<and> filter is_Get (events_since s (snd (loop_body w aps check_interval s)))
             = map (\<lambda>(app_name, url). Get url 10) aps"
proof -
  let ?H = "int (length (filter healthy_outcome (served w aps (requests_made s))))"
  from for_apps_completes[OF assms, of 0] obtain evs where
    run: "for_apps w aps 0 s =
      (Inr ?H, s\<lparr>requests_made := requests_made s + length aps, trace := trace s @ evs\<rparr>)"
    and gets: "filter is_Get evs = map (\<lambda>(n, u). Get u 10) aps"
    and logs: "length (filter is_Log evs) = length aps"
    by auto
  from loop_body_catchable[OF assms, of check_interval] obtain evs' sl r where
    body: "loop_body w aps check_interval s =
      (r,
       s\<lparr>requests_made := requests_made s + length aps,
         trace := trace s @ evs' @ aggregate ?H (int (length aps)) # sl\<rparr>)"
    and sl: "sl = [] \<or> sl = [Sleep check_interval]"
    and gets': "filter is_Get evs' = map (\<lambda>(n, u). Get u 10) aps"
    by blast
  have "\<not> is_Get (aggregate ?H (int (length aps)))" by (simp add: aggregate_def)
  moreover from sl have "filter is_Get sl = []" by auto
  ultimately have
    "filter is_Get (events_since s (snd (loop_body w aps check_interval s)))
       = map (\<lambda>(app_name, url). Get url 10) aps"
    using body gets' by (simp add: events_sinceI)
  with run gets logs show ?thesis
    by (intro exI[of _ "s\<lparr>requests_made := requests_made s + length aps,
                          trace := trace s @ evs\<rparr>"])
       (simp add: events_sinceI)
qed

theorem for_apps_sequential_witness:
  "fst (for_apps (world_with None (answer_synergas (Inr (Response 503)))) apps 0 init_state)
     = Inr 1
   \<and> filter is_Get
       (events_since init_state
          (snd (loop_body (world_with None (answer_synergas (Inr (Response 503))))
                  apps 60 init_state)))
     = [Get ''http://jopi_app:8000/health/'' 10, Get ''http://synergas_app:8000/health/'' 10]"
  using for_apps_sequential
    [of "world_with None (answer_synergas (Inr (Response 503)))" apps init_state 60]
  by (auto simp add: world_with_def answer_synergas_def init_state_def apps_def
        catchable_def healthy_outcome_def)

text \<open>
  C2. In one pass over \<open>N\<close> targets of which \<open>H\<close> answered 200, the line
  \<open>All Django apps are healthy\<close> is logged at level INFO if and only if \<open>H = N\<close>;
  otherwise the line \<open>Some Django apps are unhealthy! (H/N healthy)\<close> is logged at
  level WARNING. The summary is the one log line after the \<open>N\<close> lines of the targets.
\<close>

theorem loop_body_aggregate:
  assumes "list_all catchable (served w aps (requests_made s))"
  shows "let H = int (length (filter healthy_outcome (served w aps (requests_made s))));
             N = int (length aps);
             evs = events_since s (snd (loop_body w aps check_interval s))
         in (Log INFO ''All Django apps are healthy'' \<in> set evs \<longleftrightarrow> H = N)
          \<and> (H \<noteq> N \<longrightarrow>
               Log WARNING (''Some Django apps are unhealthy! ('' @ str_int H @ ''/''
                              @ str_int N @ '' healthy)'') \<in> set evs)
          \<and> (\<exists>per_target. length per_target = length aps
               \<and> filter is_Log evs = per_target @ [aggregate H N])"
proof -
  let ?H = "int (length (filter healthy_outcome (served w aps (requests_made s))))"
  let ?N = "int (length aps)"
  from loop_body_catchable[OF assms, of check_interval] obtain evs sl r where
    body: "loop_body w aps check_interval s =
      (r,
       s\<lparr>requests_made := requests_made s + length aps,
         trace := trace s @ evs @ aggregate ?H ?N # sl\<rparr>)"
    and sl: "sl = [] \<or> sl = [Sleep check_interval]"
    and logs: "length (filter is_Log evs) = length aps"
    and infos: "\<forall>m. Log INFO m \<in> set evs \<longrightarrow> (\<exists>n. m = n @ '': HEALTHY'')"
    by blast
  from body have ev: "events_since s (snd (loop_body w aps check_interval s))
                        = evs @ aggregate ?H ?N # sl"
    by (simp add: events_sinceI)
  have not_per_target: "Log INFO ''All Django apps are healthy'' \<notin> set evs"
  proof
    assume "Log INFO ''All Django apps are healthy'' \<in> set evs"
    with infos obtain n where "''All Django apps are healthy'' = n @ '': HEALTHY''"
      by blast
    then have "n @ '': HEALTHY'' = ''All Django apps are healthy''"
      by (rule sym)
    with healthy_line_not_summary[of n] show False
      by (rule notE)
  qed
  from sl have not_sleep: "Log INFO ''All Django apps are healthy'' \<notin> set sl"
    and sl_logs: "filter is_Log sl = []"
    by auto
  have 1: "Log INFO ''All Django apps are healthy'' \<in> set (evs @ aggregate ?H ?N # sl)
             \<longleftrightarrow> ?H = ?N"
    using not_per_target not_sleep by (simp add: aggregate_def)
  have 2: "?H \<noteq> ?N \<longrightarrow>
             Log WARNING (''Some Django apps are unhealthy! ('' @ str_int ?H @ ''/''
                            @ str_int ?N @ '' healthy)'') \<in> set (evs @ aggregate ?H ?N # sl)"
    by (simp add: aggregate_def)
  have "is_Log (aggregate ?H ?N)" by (simp add: aggregate_def)
  then have "filter is_Log (evs @ aggregate ?H ?N # sl) = filter is_Log evs @ [aggregate ?H ?N]"
    using sl_logs by simp
  with logs have 3: "\<exists>per_target. length per_target = length aps
     \<and> filter is_Log (evs @ aggregate ?H ?N # sl) = per_target @ [aggregate ?H ?N]"
    by blast
  from 1 2 3 show ?thesis
    unfolding Let_def ev by blast
qed

theorem loop_body_aggregate_witness:
  "Log WARNING ''Some Django apps are unhealthy! (1/2 healthy)''
     \<in> set (events_since init_state
              (snd (loop_body (world_with None (answer_synergas (Inr (Response 503))))
                      apps 60 init_state)))
   \<and> Log INFO ''All Django apps are healthy''
     \<notin> set (events_since init_state
              (snd (loop_body (world_with None (answer_synergas (Inr (Response 503))))
                      apps 60 init_state)))"
  using loop_body_aggregate
    [of "world_with None (answer_synergas (Inr (Response 503)))" apps init_state 60]
  by (simp add: world_with_def answer_synergas_def init_state_def apps_def
        catchable_def healthy_outcome_def Let_def str_int_1 str_int_2)

text \<open>
  C9. A pass depends on nothing but what the world serves it. Two passes, from any
  two states and in any two worlds, whose targets are served the same outcomes make
  the same requests and log the same lines, the summary line among them: all their
  events but the sleep are the same. When the clock also reads the same at the two
  sleeps, the passes end the same way and all their events are the same.
\<close>

theorem loop_body_deterministic:
  assumes "served w1 aps (requests_made s1) = served w2 aps (requests_made s2)"
  shows "filter (\<lambda>e. \<not> is_Sleep e) (events_since s1 (snd (loop_body w1 aps check_interval s1)))
           = filter (\<lambda>e. \<not> is_Sleep e)
               (events_since s2 (snd (loop_body w2 aps check_interval s2)))
       \<and> filter is_Log (events_since s1 (snd (loop_body w1 aps check_interval s1)))
           = filter is_Log (events_since s2 (snd (loop_body w2 aps check_interval s2)))
       \<and> (monotonic w1 (sleeps_made s1) = monotonic w2 (sleeps_made s2) \<longrightarrow>
            fst (loop_body w1 aps check_interval s1) = fst (loop_body w2 aps check_interval s2)
            \<and> events_since s1 (snd (loop_body w1 aps check_interval s1))
                = events_since s2 (snd (loop_body w2 aps check_interval s2)))"
proof -
  from loop_body_same[OF assms, of check_interval] obtain evs k r1 sl1 r2 sl2 where
    b1: "loop_body w1 aps check_interval s1 =
       (r1, s1\<lparr>requests_made := requests_made s1 + k, trace := trace s1 @ evs @ sl1\<rparr>)"
    and b2: "loop_body w2 aps check_interval s2 =
       (r2, s2\<lparr>requests_made := requests_made s2 + k, trace := trace s2 @ evs @ sl2\<rparr>)"
    and kinds: "\<forall>e \<in> set evs. is_Get e \<or> is_Log e"
    and sl1: "sl1 = [] \<or> sl1 = [Sleep check_interval]"
    and sl2: "sl2 = [] \<or> sl2 = [Sleep check_interval]"
    and same: "monotonic w1 (sleeps_made s1) = monotonic w2 (sleeps_made s2) \<longrightarrow>
        r1 = r2 \<and> sl1 = sl2"
    by blast
  from b1 have e1: "events_since s1 (snd (loop_body w1 aps check_interval s1)) = evs @ sl1"
    by (simp add: events_sinceI)
  from b2 have e2: "events_since s2 (snd (loop_body w2 aps check_interval s2)) = evs @ sl2"
    by (simp add: events_sinceI)
  from sl1 have n1: "filter (\<lambda>e. \<not> is_Sleep e) sl1 = []" "filter is_Log sl1 = []" by auto
  from sl2 have n2: "filter (\<lambda>e. \<not> is_Sleep e) sl2 = []" "filter is_Log sl2 = []" by auto
  from n1 n2 same b1 b2 show ?thesis
    unfolding e1 e2 by simp
qed

theorem loop_body_deterministic_witness:
  "fst (loop_body (world_with None (answer_synergas (Inr (Response 503)))) apps 60 init_state)
     = fst (loop_body (delayed_world None (answer_synergas (Inr (Response 503))))
              apps 60 later_state)
   \<and> events_since init_state
       (snd (loop_body (world_with None (answer_synergas (Inr (Response 503))))
               apps 60 init_state))
     = events_since later_state
         (snd (loop_body (delayed_world None (answer_synergas (Inr (Response 503))))
                 apps 60 later_state))"
proof -
  let ?w1 = "world_with None (answer_synergas (Inr (Response 503)))"
  let ?w2 = "delayed_world None (answer_synergas (Inr (Response 503)))"
  have 1: "served ?w1 apps (requests_made init_state)
             = served ?w2 apps (requests_made later_state)"
    by (simp add: world_with_def delayed_world_def answer_synergas_def apps_def)
  have 2: "monotonic ?w1 (sleeps_made init_state) = monotonic ?w2 (sleeps_made later_state)"
    by (simp add: world_with_def delayed_world_def sleeps_made_def init_state_def
          later_state_def)
  from loop_body_deterministic[OF 1, of 60] 2 show ?thesis
    by simp
qed

section \<open>Properties of the whole run\<close>



text \<open>
  C5, as the code has it. Suppose the configured interval parses, and
  \<^verbatim>\<open>time.sleep\<close> accepts the parsed duration at each of the first \<open>n\<close> sleeps: it is
  not negative, and the clock plus the duration stays within the signed 64-bit count
  of nanoseconds. Then the loop has no exit of its own during its first \<open>n\<close> passes.
  If no request is cut short by an exception outside \<^verbatim>\<open>Exception\<close>, the program is
  still running after the \<open>n\<close> passes: it has slept \<open>n\<close> times and requested every
  target \<open>n\<close> times, whatever statuses and faults the targets answered with. And if
  the run does end within the \<open>n\<close> passes, it ends with an exception that is not
  derived from \<^verbatim>\<open>Exception\<close>, that is, by a signal.
\<close>

theorem main_never_exits:
  assumes "py_int (configured w) = Inr check_interval"
    and "\<forall>j<n. sleep_ok (monotonic w (sleeps_made s + j)) check_interval"
  shows "((\<forall>k url. catchable (http w k url)) \<longrightarrow>
            (\<exists>s'. main w n s = (None, s')
               \<and> length (filter is_Sleep (events_since s s')) = n
               \<and> length (filter is_Get (events_since s s')) = n * length apps))
       \<and> (\<forall>e. fst (main w n s) = Some e \<longrightarrow> \<not> is_Exception (exn_class e))"
proof (intro conjI impI allI)
  let ?s0 = "s\<lparr>trace := trace s @ [Log INFO ''Starting Django health watcher...'',
                                     Getenv ''HEALTH_CHECK_INTERVAL'']\<rparr>"
  from assms(1) have m: "main w n s = while_True w apps check_interval n ?s0"
    by (simp add: main_unfold)
  have s0: "sleeps_made ?s0 = sleeps_made s"
    by (simp add: sleeps_made_def)
  from assms(2) have ok: "\<forall>j<n. sleep_ok (monotonic w (sleeps_made ?s0 + j)) check_interval"
    unfolding s0 .
  {
    assume "\<forall>k url. catchable (http w k url)"
    from while_True_runs[OF this ok, of apps] obtain evs where
      run: "while_True w apps check_interval n ?s0 =
        (None, ?s0\<lparr>requests_made := requests_made ?s0 + n * length apps,
                    trace := trace ?s0 @ evs\<rparr>)"
      and sl: "length (filter is_Sleep evs) = n"
      and gt: "length (filter is_Get evs) = n * length apps"
      by (elim exE conjE)
    let ?s' = "?s0\<lparr>requests_made := requests_made ?s0 + n * length apps,
                    trace := trace ?s0 @ evs\<rparr>"
    have ev: "events_since s ?s' = [Log INFO ''Starting Django health watcher...'',
                                     Getenv ''HEALTH_CHECK_INTERVAL''] @ evs"
      by (simp add: events_since_def)
    have "main w n s = (None, ?s')" using m run by simp
    moreover have "length (filter is_Sleep (events_since s ?s')) = n"
      unfolding ev using sl by simp
    moreover have "length (filter is_Get (events_since s ?s')) = n * length apps"
      unfolding ev using gt by simp
    ultimately
    show "\<exists>s'. main w n s = (None, s')
               \<and> length (filter is_Sleep (events_since s s')) = n
               \<and> length (filter is_Get (events_since s s')) = n * length apps"
      by (intro exI[of _ ?s'] conjI)
  }
  {
    fix e
    assume a: "fst (main w n s) = Some e"
    from while_True_shape[of w apps check_interval n ?s0] obtain r evs k where
      run: "while_True w apps check_interval n ?s0 =
        (r, ?s0\<lparr>requests_made := requests_made ?s0 + k, trace := trace ?s0 @ evs\<rparr>)"
      and ex: "\<forall>e. r = Some e \<and> is_Exception (exn_class e) \<longrightarrow>
                (\<exists>j<n. sleep_error (monotonic w (sleeps_made ?s0 + j)) check_interval
                          = Some e)"
      by (elim exE conjE)
    from a m run have r: "r = Some e" by simp
    show "\<not> is_Exception (exn_class e)"
    proof
      assume "is_Exception (exn_class e)"
      with ex r obtain j where "j < n"
        and "sleep_error (monotonic w (sleeps_made ?s0 + j)) check_interval = Some e"
        by blast
      moreover from ok \<open>j < n\<close>
      have "sleep_error (monotonic w (sleeps_made ?s0 + j)) check_interval = None"
        by (simp add: sleep_error_None)
      ultimately show False by simp
    qed
  }
qed

theorem main_never_exits_witness:
  "fst (main (world_with (Some ''5'') (answer_synergas (Inl (Exn Timeout ''Read timed out.''))))
          3 init_state) = None
   \<and> length (filter is_Sleep
        (events_since init_state
           (snd (main (world_with (Some ''5'')
                         (answer_synergas (Inl (Exn Timeout ''Read timed out.''))))
                   3 init_state)))) = 3"
proof -
  let ?w = "world_with (Some ''5'') (answer_synergas (Inl (Exn Timeout ''Read timed out.'')))"
  have 1: "py_int (configured ?w) = Inr 5"
    by (simp add: configured_def world_with_def py_int_5)
  have 2: "\<forall>k url. catchable (http ?w k url)"
    by (simp add: world_with_def answer_synergas_def catchable_def)
  have 3: "\<forall>j<3. sleep_ok (monotonic ?w (sleeps_made init_state + j)) 5"
    by (simp add: world_with_def sleeps_made_def init_state_def sleep_ok_uptime_5)
  from main_never_exits[OF 1 3] 2
  obtain s' where "main ?w 3 init_state = (None, s')"
    and "length (filter is_Sleep (events_since init_state s')) = 3"
    by (elim conjE impE exE)
  then show ?thesis by simp
qed

text \<open>
  C5 as stated holds in every reachable state. It does not: with the interval set to
  \<open>-5\<close> the first pass probes the targets, absorbs the timeout of one of them, logs
  the summary, and then \<^verbatim>\<open>time.sleep\<close> raises \<^verbatim>\<open>ValueError\<close>, which leaves the loop
  and the program.
\<close>

theorem main_exits_on_negative_interval:
  "fst (main (world_with (Some ''-5'') (answer_synergas (Inl (Exn Timeout ''Read timed out.''))))
          1 init_state)
     = Some (Exn ValueError ''sleep length must be non-negative'')
   \<and> is_Exception (exn_class (Exn ValueError ''sleep length must be non-negative''))"
  by code_simp




end
